theory Spec2Isabelle
  imports Main "HOL-Library.Word" "HOL-Library.Stream" "HOL-Library.Monad_Syntax"
begin

unbundle bit_operations_syntax

section \<open>The TWI peripheral as the driver sees it\<close>

text \<open>
  GAGHL_AVR_I2C.c drives the two-wire interface of an AVR through five memory-mapped,
  volatile 8-bit registers. What the driver does to the outside world is the sequence of
  its register writes; what the outside world does to the driver is the sequence of values
  its register reads return. The model keeps both apart:
  \<^item> \<open>writes\<close> is the log of every register write, oldest first;
  \<^item> \<open>TWCR_in\<close>, \<open>TWSR_in\<close> and \<open>TWDR_in\<close> are the values that the successive reads of
    the control, status and data register will return. They are arbitrary streams, so a
    statement about every state is a statement about every behaviour of the hardware.
\<close>

type_synonym u8 = "8 word"
type_synonym u16 = "16 word"
type_synonym u32 = "32 word"

datatype reg = TWBR | TWSR | TWAR | TWDR | TWCR

record twi =
  writes :: "(reg \<times> u8) list"
  TWCR_in :: "u8 stream"
  TWSR_in :: "u8 stream"
  TWDR_in :: "u8 stream"

text \<open>
  The bit numbers of TWCR are those of \<^verbatim>\<open><avr/io.h>\<close> (avr-libc), which the header of
  the driver includes; they are the same on every AVR that has a TWI.
\<close>

definition TWINT :: nat where "TWINT = 7"
definition TWEA :: nat where "TWEA = 6"
definition TWSTA :: nat where "TWSTA = 5"
definition TWSTO :: nat where "TWSTO = 4"
definition TWEN :: nat where "TWEN = 2"

text \<open>\<^verbatim>\<open>#define F_CPU 8000000UL\<close>: an unsigned long, 32 bits wide on the AVR.\<close>

definition F_CPU :: u32 where "F_CPU = 8000000"

definition write_reg :: "reg \<Rightarrow> u8 \<Rightarrow> twi \<Rightarrow> twi" where
  "write_reg r v s = s\<lparr>writes := writes s @ [(r, v)]\<rparr>"

definition read_TWCR :: "twi \<Rightarrow> u8 \<times> twi" where
  "read_TWCR s = (shd (TWCR_in s), s\<lparr>TWCR_in := stl (TWCR_in s)\<rparr>)"

definition read_TWSR :: "twi \<Rightarrow> u8 \<times> twi" where
  "read_TWSR s = (shd (TWSR_in s), s\<lparr>TWSR_in := stl (TWSR_in s)\<rparr>)"

definition read_TWDR :: "twi \<Rightarrow> u8 \<times> twi" where
  "read_TWDR s = (shd (TWDR_in s), s\<lparr>TWDR_in := stl (TWDR_in s)\<rparr>)"

section \<open>The primitive operations\<close>

text \<open>
  \<^verbatim>\<open>while (!(TWCR & (1 << TWINT)));\<close> reads TWCR until a read shows TWINT set. The loop
  has no bound, so it is a partial function: \<open>None\<close> is the busy-wait that never ends.
  In every function below that returns an option, \<open>None\<close> means just that: the call does
  not return.
\<close>

partial_function (option) wait_TWINT :: "twi \<Rightarrow> twi option" where
  "wait_TWINT s =
     (case read_TWCR s of
        (v, s') \<Rightarrow> if v AND push_bit TWINT 1 = 0 then wait_TWINT s' else Some s')"

text \<open>
  \<^verbatim>\<open>void i2c_init(uint16_t freq)\<close>. The driver is written for avr-gcc, where \<open>int\<close> has 16
  bits and \<open>uint16_t\<close> is \<open>unsigned int\<close>: the product \<open>freq * 1000\<close> is an
  \<open>unsigned int\<close> and wraps modulo \<open>2 ^ 16\<close> before it is converted to \<open>unsigned long\<close>
  for the division. The subtraction and the division by 2 are \<open>unsigned long\<close>, and the
  assignment to the 8-bit register keeps the low byte. A division by zero is undefined in C.
\<close>

datatype fault = DivisionByZero

definition i2c_init :: "u16 \<Rightarrow> twi \<Rightarrow> fault + twi" where
  "i2c_init freq s =
     (let s1 = write_reg TWSR 0x00 s;
          d = (ucast (freq * 1000) :: u32)
      in if d = 0 then Inl DivisionByZero
         else
           let s2 = write_reg TWBR (ucast ((F_CPU div d - 16) div 2)) s1
           in Inr (write_reg TWCR (push_bit TWEN 1) s2))"

definition i2c_start :: "twi \<Rightarrow> twi option" where
  "i2c_start s =
     wait_TWINT (write_reg TWCR (push_bit TWINT 1 OR push_bit TWSTA 1 OR push_bit TWEN 1) s)"

definition i2c_stop :: "twi \<Rightarrow> twi" where
  "i2c_stop s = write_reg TWCR (push_bit TWINT 1 OR push_bit TWSTO 1 OR push_bit TWEN 1) s"

definition i2c_write :: "u8 \<Rightarrow> twi \<Rightarrow> (u8 \<times> twi) option" where
  "i2c_write Data s = do {
     let s1 = write_reg TWDR Data s;
     let s2 = write_reg TWCR (push_bit TWINT 1 OR push_bit TWEN 1) s1;
     s3 \<leftarrow> wait_TWINT s2;
     let (v, s4) = read_TWSR s3;
     let status = v AND 0xF8;
     if status \<noteq> 0x18 \<and> status \<noteq> 0x28 \<and> status \<noteq> 0x40 \<and> status \<noteq> 0x50
     then Some (0, s4)
     else Some (1, s4)
   }"

definition i2c_read_ack :: "twi \<Rightarrow> (u8 \<times> twi) option" where
  "i2c_read_ack s = do {
     let s1 = write_reg TWCR (push_bit TWINT 1 OR push_bit TWEN 1 OR push_bit TWEA 1) s;
     s2 \<leftarrow> wait_TWINT s1;
     Some (read_TWDR s2)
   }"

definition i2c_read_no_ack :: "twi \<Rightarrow> (u8 \<times> twi) option" where
  "i2c_read_no_ack s = do {
     let s1 = write_reg TWCR (push_bit TWINT 1 OR push_bit TWEN 1) s;
     s2 \<leftarrow> wait_TWINT s1;
     Some (read_TWDR s2)
   }"

definition i2c_set_MCU_address :: "u8 \<Rightarrow> twi \<Rightarrow> twi" where
  "i2c_set_MCU_address Address s =
     write_reg TWCR (push_bit TWEN 1 OR push_bit TWEA 1) (write_reg TWAR (push_bit 1 Address) s)"

section \<open>The composed transactions\<close>

text \<open>
  \<open>Slave_Address << 1\<close> is computed in \<open>int\<close> and cut to 8 bits when it is passed as a
  \<open>uint8_t\<close>, which is \<open>push_bit 1\<close> on an 8-bit word.
\<close>

definition i2c_writeByte :: "u8 \<Rightarrow> u8 \<Rightarrow> twi \<Rightarrow> twi option" where
  "i2c_writeByte Slave_Address Data s = do {
     s1 \<leftarrow> i2c_start s;
     (_, s2) \<leftarrow> i2c_write (push_bit 1 Slave_Address) s1;
     (_, s3) \<leftarrow> i2c_write Data s2;
     Some (i2c_stop s3)
   }"

definition i2c_readByte :: "u8 \<Rightarrow> twi \<Rightarrow> (u8 \<times> twi) option" where
  "i2c_readByte Slave_Address s = do {
     s1 \<leftarrow> i2c_start s;
     (_, s2) \<leftarrow> i2c_write (push_bit 1 Slave_Address OR 1) s1;
     (data, s3) \<leftarrow> i2c_read_no_ack s2;
     Some (data, i2c_stop s3)
   }"

text \<open>
  \<^verbatim>\<open>uint8_t i2c_pagewrite(uint8_t Slave_Address, char* str)\<close>. The string is the list of
  the bytes stored at \<open>str\<close>; the array ends with a \<open>'\0'\<close> that the list leaves out, so
  \<open>[]\<close> is the position of that terminator. A zero byte inside the list ends the loop as
  well, as \<^verbatim>\<open>*str != '\0'\<close> does. \<open>pagewrite_from\<close> is the function from the head of the
  \<open>while\<close> loop to its two \<open>return\<close>s.
\<close>

fun pagewrite_from :: "u8 list \<Rightarrow> twi \<Rightarrow> (u8 \<times> twi) option" where
  "pagewrite_from [] s = Some (1, i2c_stop s)"
| "pagewrite_from (c # str) s =
     (if c \<noteq> 0 then do {
        (ok, s1) \<leftarrow> i2c_write c s;
        if ok = 0 then Some (0, s1) else pagewrite_from str s1
      }
      else Some (1, i2c_stop s))"

definition i2c_pagewrite :: "u8 \<Rightarrow> u8 list \<Rightarrow> twi \<Rightarrow> (u8 \<times> twi) option" where
  "i2c_pagewrite Slave_Address str s = do {
     s1 \<leftarrow> i2c_start s;
     (_, s2) \<leftarrow> i2c_write (push_bit 1 Slave_Address) s1;
     pagewrite_from str s2
   }"

text \<open>
  \<^verbatim>\<open>void i2c_pageread(uint8_t Slave_Address, char* buffer, uint8_t length)\<close>. The buffer is
  the memory seen through the pointer: \<open>buffer i\<close> is the byte at \<open>buffer + i\<close>, and
  \<^verbatim>\<open>buffer[i] = v\<close> updates that byte. The counter \<open>i\<close> is a \<open>uint8_t\<close>; the
  comparison \<^verbatim>\<open>i == length - 1\<close> is made in \<open>int\<close>, after the promotion of both sides.
\<close>

function pageread_loop ::
  "u8 \<Rightarrow> u8 \<Rightarrow> (nat \<Rightarrow> u8) \<Rightarrow> twi \<Rightarrow> ((nat \<Rightarrow> u8) \<times> twi) option" where
  "pageread_loop i len buffer s =
     (if i < len then do {
        (v, s1) \<leftarrow> (if uint i = uint len - 1 then i2c_read_no_ack s else i2c_read_ack s);
        pageread_loop (i + 1) len (buffer(unat i := v)) s1
      }
      else Some (buffer, s))"
  by pat_completeness auto
termination
proof (relation "measure (\<lambda>(i, len, buffer, s). unat len - unat i)")
  show "wf (measure (\<lambda>(i, len, buffer, s). unat len - unat i))"
    by simp
next
  fix i len :: u8 and buffer :: "nat \<Rightarrow> u8" and s :: twi and x :: "u8 \<times> twi" and v s1
  assume lt: "i < len"
  then have "unat i < unat len"
    by (simp add: word_less_nat_alt)
  moreover have "unat len < 256"
    using unsigned_less [of len, where 'a = nat] by simp
  ultimately have "unat (i + 1) = unat i + 1" and "unat i < unat len"
    by (simp_all add: unat_word_ariths)
  then show "((i + 1, len, buffer(unat i := v), s1), (i, len, buffer, s))
      \<in> measure (\<lambda>(i, len, buffer, s). unat len - unat i)"
    by simp
qed

declare pageread_loop.simps [simp del]

definition i2c_pageread ::
  "u8 \<Rightarrow> (nat \<Rightarrow> u8) \<Rightarrow> u8 \<Rightarrow> twi \<Rightarrow> ((nat \<Rightarrow> u8) \<times> twi) option" where
  "i2c_pageread Slave_Address buffer len s = do {
     s1 \<leftarrow> i2c_start s;
     (_, s2) \<leftarrow> i2c_write (push_bit 1 Slave_Address OR 1) s1;
     (buffer1, s3) \<leftarrow> pageread_loop 0 len buffer s2;
     let buffer2 = (if len > 0 then buffer1(unat len - 1 := 0) else buffer1);
     Some (buffer2, i2c_stop s3)
   }"

section \<open>Vocabulary of the properties\<close>

text \<open>
  \<open>raises n rs\<close>: the reads \<open>rs\<close> of TWCR show TWINT set at least \<open>n\<close> times, so the
  hardware completes at least \<open>n\<close> more operations.
\<close>

primrec raises :: "nat \<Rightarrow> u8 stream \<Rightarrow> bool" where
  "raises 0 rs = True"
| "raises (Suc n) rs = (\<exists>k. bit (rs !! k) TWINT \<and> raises n (sdrop (Suc k) rs))"

text \<open>
  The register writes of one call of each primitive: \<open>0xA4\<close> is TWINT, TWSTA and TWEN,
  \<open>0x94\<close> is TWINT, TWSTO and TWEN, \<open>0x84\<close> is TWINT and TWEN, \<open>0xC4\<close> is TWINT, TWEA
  and TWEN.
\<close>

definition start_ops :: "(reg \<times> u8) list" where
  "start_ops = [(TWCR, 0xA4)]"

definition stop_ops :: "(reg \<times> u8) list" where
  "stop_ops = [(TWCR, 0x94)]"

definition write_ops :: "u8 \<Rightarrow> (reg \<times> u8) list" where
  "write_ops b = [(TWDR, b), (TWCR, 0x84)]"

definition read_ack_ops :: "(reg \<times> u8) list" where
  "read_ack_ops = [(TWCR, 0xC4)]"

definition read_no_ack_ops :: "(reg \<times> u8) list" where
  "read_no_ack_ops = [(TWCR, 0x84)]"

text \<open>The register writes of a data phase of \<open>n\<close> bytes: every read but the last with
  acknowledgment.\<close>

definition read_ops :: "nat \<Rightarrow> (reg \<times> u8) list" where
  "read_ops n = (if n = 0 then [] else concat (replicate (n - 1) read_ack_ops) @ read_no_ack_ops)"

text \<open>The four status codes that \<open>i2c_write\<close> takes for an acknowledgment.\<close>

definition acknowledged :: "u8 \<Rightarrow> bool" where
  "acknowledged v = (v AND 0xF8 \<in> {0x18, 0x28, 0x40, 0x50})"

text \<open>
  A start condition is a write to TWCR with TWSTA set, a stop condition one with TWSTO set.
\<close>

definition starts :: "(reg \<times> u8) list \<Rightarrow> nat" where
  "starts ws = length (filter (\<lambda>(r, v). r = TWCR \<and> bit v TWSTA) ws)"

definition stops :: "(reg \<times> u8) list \<Rightarrow> nat" where
  "stops ws = length (filter (\<lambda>(r, v). r = TWCR \<and> bit v TWSTO) ws)"

text \<open>Hardware states for the examples: a bus that never completes an operation, and one
  that shows TWINT on every second read of TWCR, with the given status and data bytes.\<close>

definition dead_bus :: twi where
  "dead_bus = \<lparr>writes = [], TWCR_in = sconst 0x04, TWSR_in = sconst 0xF8, TWDR_in = sconst 0xFF\<rparr>"

definition bus :: "u8 list \<Rightarrow> u8 list \<Rightarrow> twi" where
  "bus statuses bytes =
     \<lparr>writes = [], TWCR_in = cycle [0x04, 0x84], TWSR_in = statuses @- sconst 0xF8,
      TWDR_in = bytes @- sconst 0xFF\<rparr>"

section \<open>The busy-wait\<close>

lemma wait_TWINT_ready:
  "bit (shd (TWCR_in s)) TWINT \<Longrightarrow> wait_TWINT s = Some (s\<lparr>TWCR_in := stl (TWCR_in s)\<rparr>)"
  by (subst wait_TWINT.simps) (simp add: read_TWCR_def and_exp_eq_0_iff_not_bit)

lemma wait_TWINT_busy:
  "\<not> bit (shd (TWCR_in s)) TWINT \<Longrightarrow> wait_TWINT s = wait_TWINT (s\<lparr>TWCR_in := stl (TWCR_in s)\<rparr>)"
  by (subst wait_TWINT.simps) (simp add: read_TWCR_def and_exp_eq_0_iff_not_bit)

lemma raises_sdrop: "raises n (sdrop m rs) \<Longrightarrow> raises n rs"
proof (cases n)
  case 0
  then show ?thesis by simp
next
  case (Suc n')
  assume "raises n (sdrop m rs)"
  with Suc obtain k where "bit (sdrop m rs !! k) TWINT" and "raises n' (sdrop (Suc k) (sdrop m rs))"
    by auto
  then have "bit (rs !! (m + k)) TWINT" and "raises n' (sdrop (Suc (m + k)) rs)"
    by (simp_all add: sdrop_snth)
  with Suc show ?thesis by auto
qed

lemma wait_TWINT_at:
  "bit (TWCR_in s !! k) TWINT \<Longrightarrow> raises n (sdrop (Suc k) (TWCR_in s)) \<Longrightarrow>
   \<exists>rs. wait_TWINT s = Some (s\<lparr>TWCR_in := rs\<rparr>) \<and> raises n rs"
proof (induction k arbitrary: s)
  case 0
  then show ?case by (auto simp: wait_TWINT_ready)
next
  case (Suc k)
  show ?case
  proof (cases "bit (shd (TWCR_in s)) TWINT")
    case True
    from Suc.prems(2) have "raises n (sdrop (Suc k) (stl (TWCR_in s)))" by simp
    then have "raises n (stl (TWCR_in s))" by (rule raises_sdrop)
    with True show ?thesis by (auto simp: wait_TWINT_ready)
  next
    case False
    let ?s = "s\<lparr>TWCR_in := stl (TWCR_in s)\<rparr>"
    from Suc.prems have "bit (TWCR_in ?s !! k) TWINT" and "raises n (sdrop (Suc k) (TWCR_in ?s))"
      by simp_all
    then obtain rs where "wait_TWINT ?s = Some (?s\<lparr>TWCR_in := rs\<rparr>)" and "raises n rs"
      using Suc.IH by blast
    with False show ?thesis by (auto simp: wait_TWINT_busy)
  qed
qed

lemma wait_TWINT_returns:
  assumes "raises (Suc n) (TWCR_in s)"
  obtains rs where "wait_TWINT s = Some (s\<lparr>TWCR_in := rs\<rparr>)" and "raises n rs"
proof -
  from assms obtain k where "bit (TWCR_in s !! k) TWINT"
    and "raises n (sdrop (Suc k) (TWCR_in s))"
    unfolding raises.simps by blast
  then show ?thesis
    using wait_TWINT_at that by blast
qed

lemma wait_TWINT_SomeE:
  assumes "wait_TWINT s = Some s'"
  shows "\<exists>k. bit (TWCR_in s !! k) TWINT \<and> s' = s\<lparr>TWCR_in := sdrop (Suc k) (TWCR_in s)\<rparr>"
proof (rule wait_TWINT.raw_induct [where P = "\<lambda>s s'. \<exists>k. bit (TWCR_in s !! k) TWINT
    \<and> s' = s\<lparr>TWCR_in := sdrop (Suc k) (TWCR_in s)\<rparr>"])
  show "wait_TWINT s = Some s'" by (rule assms)
next
  fix wait :: "twi \<Rightarrow> twi option" and t t'
  assume IH: "\<And>x y. wait x = Some y \<Longrightarrow>
      \<exists>k. bit (TWCR_in x !! k) TWINT \<and> y = x\<lparr>TWCR_in := sdrop (Suc k) (TWCR_in x)\<rparr>"
    and step: "(case read_TWCR t of
        (v, u) \<Rightarrow> if v AND push_bit TWINT 1 = 0 then wait u else Some u) = Some t'"
  show "\<exists>k. bit (TWCR_in t !! k) TWINT \<and> t' = t\<lparr>TWCR_in := sdrop (Suc k) (TWCR_in t)\<rparr>"
  proof (cases "bit (shd (TWCR_in t)) TWINT")
    case True
    with step have "bit (TWCR_in t !! 0) TWINT \<and> t' = t\<lparr>TWCR_in := sdrop (Suc 0) (TWCR_in t)\<rparr>"
      by (auto simp: read_TWCR_def and_exp_eq_0_iff_not_bit)
    then show ?thesis ..
  next
    case False
    let ?u = "t\<lparr>TWCR_in := stl (TWCR_in t)\<rparr>"
    from False step have "wait ?u = Some t'"
      by (simp add: read_TWCR_def and_exp_eq_0_iff_not_bit)
    then obtain k where "bit (TWCR_in ?u !! k) TWINT"
      and "t' = ?u\<lparr>TWCR_in := sdrop (Suc k) (TWCR_in ?u)\<rparr>"
      using IH by blast
    then have "bit (TWCR_in t !! Suc k) TWINT
        \<and> t' = t\<lparr>TWCR_in := sdrop (Suc (Suc k)) (TWCR_in t)\<rparr>"
      by simp
    then show ?thesis ..
  qed
qed

lemma wait_TWINT_never: "\<forall>k. \<not> bit (TWCR_in s !! k) TWINT \<Longrightarrow> wait_TWINT s = None"
  using wait_TWINT_SomeE by (cases "wait_TWINT s") auto

lemma wait_TWINT_needs:
  assumes "wait_TWINT s = Some s'" and "raises n (TWCR_in s')"
  shows "raises (Suc n) (TWCR_in s)"
    and "writes s' = writes s" and "TWSR_in s' = TWSR_in s" and "TWDR_in s' = TWDR_in s"
proof -
  from assms(1) obtain k where k: "bit (TWCR_in s !! k) TWINT"
    and s': "s' = s\<lparr>TWCR_in := sdrop (Suc k) (TWCR_in s)\<rparr>"
    using wait_TWINT_SomeE by blast
  from s' assms(2) have "raises n (sdrop (Suc k) (TWCR_in s))"
    by simp
  with k show "raises (Suc n) (TWCR_in s)"
    unfolding raises.simps by blast
  from s' show "writes s' = writes s" and "TWSR_in s' = TWSR_in s" and "TWDR_in s' = TWDR_in s"
    by simp_all
qed

lemma i2c_start_returns:
  assumes "raises (Suc n) (TWCR_in s)"
  obtains rs where
    "i2c_start s = Some (s\<lparr>writes := writes s @ start_ops, TWCR_in := rs\<rparr>)" and "raises n rs"
proof -
  let ?s = "write_reg TWCR (push_bit TWINT 1 OR push_bit TWSTA 1 OR push_bit TWEN 1) s"
  from assms have "raises (Suc n) (TWCR_in ?s)" by (simp add: write_reg_def)
  then obtain rs where "wait_TWINT ?s = Some (?s\<lparr>TWCR_in := rs\<rparr>)" and "raises n rs"
    by (rule wait_TWINT_returns)
  then show ?thesis
    using that [of rs]
    by (simp add: i2c_start_def write_reg_def start_ops_def TWINT_def TWSTA_def TWEN_def)
qed

lemma i2c_write_returns:
  assumes "raises (Suc n) (TWCR_in s)"
  obtains rs where
    "i2c_write d s = Some (if acknowledged (shd (TWSR_in s)) then 1 else 0,
       s\<lparr>writes := writes s @ write_ops d, TWCR_in := rs, TWSR_in := stl (TWSR_in s)\<rparr>)"
    and "raises n rs"
proof -
  let ?s = "write_reg TWCR (push_bit TWINT 1 OR push_bit TWEN 1) (write_reg TWDR d s)"
  from assms have "raises (Suc n) (TWCR_in ?s)" by (simp add: write_reg_def)
  then obtain rs where "wait_TWINT ?s = Some (?s\<lparr>TWCR_in := rs\<rparr>)" and "raises n rs"
    by (rule wait_TWINT_returns)
  then show ?thesis
    using that [of rs]
    by (simp add: i2c_write_def write_reg_def write_ops_def read_TWSR_def acknowledged_def
        TWINT_def TWEN_def)
qed

lemma i2c_read_ack_returns:
  assumes "raises (Suc n) (TWCR_in s)"
  obtains rs where
    "i2c_read_ack s = Some (shd (TWDR_in s),
       s\<lparr>writes := writes s @ read_ack_ops, TWCR_in := rs, TWDR_in := stl (TWDR_in s)\<rparr>)"
    and "raises n rs"
proof -
  let ?s = "write_reg TWCR (push_bit TWINT 1 OR push_bit TWEN 1 OR push_bit TWEA 1) s"
  from assms have "raises (Suc n) (TWCR_in ?s)" by (simp add: write_reg_def)
  then obtain rs where "wait_TWINT ?s = Some (?s\<lparr>TWCR_in := rs\<rparr>)" and "raises n rs"
    by (rule wait_TWINT_returns)
  then show ?thesis
    using that [of rs]
    by (simp add: i2c_read_ack_def write_reg_def read_ack_ops_def read_TWDR_def
        TWINT_def TWEN_def TWEA_def)
qed

lemma i2c_read_no_ack_returns:
  assumes "raises (Suc n) (TWCR_in s)"
  obtains rs where
    "i2c_read_no_ack s = Some (shd (TWDR_in s),
       s\<lparr>writes := writes s @ read_no_ack_ops, TWCR_in := rs, TWDR_in := stl (TWDR_in s)\<rparr>)"
    and "raises n rs"
proof -
  let ?s = "write_reg TWCR (push_bit TWINT 1 OR push_bit TWEN 1) s"
  from assms have "raises (Suc n) (TWCR_in ?s)" by (simp add: write_reg_def)
  then obtain rs where "wait_TWINT ?s = Some (?s\<lparr>TWCR_in := rs\<rparr>)" and "raises n rs"
    by (rule wait_TWINT_returns)
  then show ?thesis
    using that [of rs]
    by (simp add: i2c_read_no_ack_def write_reg_def read_no_ack_ops_def read_TWDR_def
        TWINT_def TWEN_def)
qed

lemma i2c_stop_eq: "i2c_stop s = s\<lparr>writes := writes s @ stop_ops\<rparr>"
  by (simp add: i2c_stop_def write_reg_def stop_ops_def TWINT_def TWSTO_def TWEN_def)

text \<open>Conversely, a primitive that returns has seen TWINT set.\<close>

lemma primitives_need_TWINT:
  "i2c_start s = Some s' \<Longrightarrow> raises n (TWCR_in s') \<Longrightarrow> raises (Suc n) (TWCR_in s)"
  "i2c_write d s = Some (r, s') \<Longrightarrow> raises n (TWCR_in s') \<Longrightarrow> raises (Suc n) (TWCR_in s)"
  "i2c_read_ack s = Some (v, s') \<Longrightarrow> raises n (TWCR_in s') \<Longrightarrow> raises (Suc n) (TWCR_in s)"
  "i2c_read_no_ack s = Some (v, s') \<Longrightarrow> raises n (TWCR_in s') \<Longrightarrow> raises (Suc n) (TWCR_in s)"
  using wait_TWINT_needs(1) [of _ _ n]
  by (fastforce simp: i2c_start_def i2c_write_def i2c_read_ack_def i2c_read_no_ack_def
      write_reg_def read_TWSR_def read_TWDR_def bind_eq_Some_conv Let_def split: if_splits)+

lemma raises_cycle: "raises n (cycle [0x04, 0x84])"
proof (induction n)
  case 0
  show ?case by simp
next
  case (Suc n)
  have "sdrop (length [0x04, 0x84 :: u8]) (cycle [0x04, 0x84]) = cycle [0x04, 0x84 :: u8]"
    by (rule sdrop_cycle_eq) simp
  then have "sdrop (Suc 1) (cycle [0x04, 0x84]) = cycle [0x04, 0x84 :: u8]"
    by simp
  moreover have "bit (cycle [0x04, 0x84 :: u8] !! 1) TWINT"
    by (simp add: TWINT_def)
  ultimately show ?case
    unfolding raises.simps using Suc by metis
qed

lemma raises_bus: "raises n (TWCR_in (bus statuses bytes))"
  by (simp add: bus_def raises_cycle)

section \<open>The primitives\<close>

text \<open>
  C3. For every byte and every status the hardware reports, once the hardware raises TWINT
  \<open>i2c_write\<close> returns, and it returns 1 exactly when the upper five bits of the status
  register are one of 0x18 (address written, acknowledged), 0x28 (data written,
  acknowledged), 0x40 (address for reading, acknowledged) and 0x50 (data read,
  acknowledged); for every other status it returns 0.
\<close>

theorem i2c_write_status:
  assumes "raises (Suc 0) (TWCR_in s)"
  shows "\<exists>r s'. i2c_write Data s = Some (r, s')
    \<and> (r = 1 \<longleftrightarrow> shd (TWSR_in s) AND 0xF8 \<in> {0x18, 0x28, 0x40, 0x50})
    \<and> (r = 0 \<longleftrightarrow> shd (TWSR_in s) AND 0xF8 \<notin> {0x18, 0x28, 0x40, 0x50})"
proof -
  from assms obtain rs where
    "i2c_write Data s = Some (if acknowledged (shd (TWSR_in s)) then 1 else 0,
       s\<lparr>writes := writes s @ write_ops Data, TWCR_in := rs, TWSR_in := stl (TWSR_in s)\<rparr>)"
    by (rule i2c_write_returns)
  then show ?thesis
    by (cases "acknowledged (shd (TWSR_in s))") (simp_all add: acknowledged_def)
qed

theorem i2c_write_status_witness:
  "raises (Suc 0) (TWCR_in (bus [0x18, 0x30] []))
   \<and> (\<exists>r s'. i2c_write 0x20 (bus [0x18, 0x30] []) = Some (r, s') \<and> r = 1)"
proof -
  have h: "raises (Suc 0) (TWCR_in (bus [0x18, 0x30] []))"
    by (rule raises_bus)
  have "shd (TWSR_in (bus [0x18, 0x30] [])) = 0x18"
    by (simp add: bus_def)
  with i2c_write_status [OF h, of "0x20"] h show ?thesis
    by auto
qed

text \<open>
  C8. \<open>i2c_stop\<close> is one write to the control register and nothing else: it reads no
  register, so it returns in every state of the hardware. \<open>i2c_start\<close>, \<open>i2c_write\<close>,
  \<open>i2c_read_ack\<close> and \<open>i2c_read_no_ack\<close> poll TWINT: each of them fails to return
  exactly on a bus that never raises it.
\<close>

theorem i2c_stop_no_wait:
  "i2c_stop s = s\<lparr>writes := writes s @ [(TWCR, 0x94)]\<rparr>
   \<and> (i2c_start s = None \<longleftrightarrow> (\<forall>k. \<not> bit (TWCR_in s !! k) TWINT))
   \<and> (i2c_write Data s = None \<longleftrightarrow> (\<forall>k. \<not> bit (TWCR_in s !! k) TWINT))
   \<and> (i2c_read_ack s = None \<longleftrightarrow> (\<forall>k. \<not> bit (TWCR_in s !! k) TWINT))
   \<and> (i2c_read_no_ack s = None \<longleftrightarrow> (\<forall>k. \<not> bit (TWCR_in s !! k) TWINT))"
proof (cases "\<forall>k. \<not> bit (TWCR_in s !! k) TWINT")
  case True
  then have "wait_TWINT (s\<lparr>writes := ws\<rparr>) = None" for ws
    by (intro wait_TWINT_never) simp
  with True show ?thesis
    by (simp add: i2c_stop_eq stop_ops_def i2c_start_def i2c_write_def i2c_read_ack_def
        i2c_read_no_ack_def write_reg_def)
next
  case False
  then have r: "raises (Suc 0) (TWCR_in s)"
    by simp
  have "i2c_start s \<noteq> None"
    using i2c_start_returns [OF r] by (metis option.distinct(1))
  moreover have "i2c_write Data s \<noteq> None"
    using i2c_write_returns [OF r, of Data] by (metis option.distinct(1))
  moreover have "i2c_read_ack s \<noteq> None"
    using i2c_read_ack_returns [OF r] by (metis option.distinct(1))
  moreover have "i2c_read_no_ack s \<noteq> None"
    using i2c_read_no_ack_returns [OF r] by (metis option.distinct(1))
  moreover have "i2c_stop s = s\<lparr>writes := writes s @ [(TWCR, 0x94)]\<rparr>"
    by (simp add: i2c_stop_eq stop_ops_def)
  ultimately show ?thesis
    using False by blast
qed

theorem i2c_stop_no_wait_witness:
  "(\<forall>k. \<not> bit (TWCR_in dead_bus !! k) TWINT)
   \<and> i2c_stop dead_bus = dead_bus\<lparr>writes := [(TWCR, 0x94)]\<rparr>
   \<and> i2c_start dead_bus = None \<and> i2c_write 0x20 dead_bus = None
   \<and> i2c_read_ack dead_bus = None \<and> i2c_read_no_ack dead_bus = None"
proof -
  have h: "\<forall>k. \<not> bit (TWCR_in dead_bus !! k) TWINT"
    by (simp add: dead_bus_def TWINT_def)
  have "writes dead_bus = []"
    by (simp add: dead_bus_def)
  with i2c_stop_no_wait [of dead_bus "0x20"] h show ?thesis
    by simp
qed

section \<open>The loop of the page read\<close>

lemma read_ops_Suc:
  "(if k = 0 then read_no_ack_ops else read_ack_ops) @ read_ops k = read_ops (Suc k)"
  by (cases k) (simp_all add: read_ops_def)

lemma unat_succ_below: "i < len \<Longrightarrow> unat (i + 1) = Suc (unat i)" for i len :: u8
proof -
  assume "i < len"
  then have "unat i < unat len" by (simp add: word_less_nat_alt)
  moreover have "unat len < 256"
    using unsigned_less [of len, where 'a = nat] by simp
  ultimately show ?thesis by (simp add: unat_word_ariths)
qed

lemma last_index: "uint i = uint len - 1 \<longleftrightarrow> Suc (unat i) = unat len" for i len :: u8
  unfolding uint_nat by linarith

lemma pageread_loop_returns:
  assumes "unat i + k = unat len" and "raises (k + m) (TWCR_in s)"
  shows "\<exists>rs. pageread_loop i len buffer s =
      Some (\<lambda>j. if unat i \<le> j \<and> j < unat len then TWDR_in s !! (j - unat i) else buffer j,
        s\<lparr>writes := writes s @ read_ops k, TWCR_in := rs, TWDR_in := sdrop k (TWDR_in s)\<rparr>)
    \<and> raises m rs"
  using assms
proof (induction k arbitrary: i buffer s)
  case 0
  then have "\<not> i < len" and "unat i = unat len"
    by (simp_all add: word_less_nat_alt)
  then have "pageread_loop i len buffer s = Some (buffer, s)"
    by (subst pageread_loop.simps) simp
  moreover have "(\<lambda>j. if unat i \<le> j \<and> j < unat len then TWDR_in s !! (j - unat i) else buffer j)
      = buffer"
    using \<open>unat i = unat len\<close> by (intro ext) auto
  moreover have "s\<lparr>writes := writes s @ read_ops 0, TWCR_in := TWCR_in s,
      TWDR_in := sdrop 0 (TWDR_in s)\<rparr> = s"
    by (simp add: read_ops_def)
  ultimately show ?case
    using "0.prems"(2) by (intro exI [of _ "TWCR_in s"]) simp
next
  case (Suc k)
  let ?last = "uint i = uint len - 1"
  let ?op = "if k = 0 then read_no_ack_ops else read_ack_ops"
  from Suc.prems(1) have lt: "i < len"
    by (simp add: word_less_nat_alt)
  then have succ: "unat (i + 1) = Suc (unat i)"
    by (rule unat_succ_below)
  from Suc.prems(1) have last: "?last \<longleftrightarrow> k = 0"
    by (auto simp: last_index)
  from Suc.prems(2) have "raises (Suc (k + m)) (TWCR_in s)"
    by simp
  then obtain r1 where
    rd: "(if ?last then i2c_read_no_ack s else i2c_read_ack s) = Some (shd (TWDR_in s),
       s\<lparr>writes := writes s @ ?op, TWCR_in := r1, TWDR_in := stl (TWDR_in s)\<rparr>)"
    and r1: "raises (k + m) r1"
    using i2c_read_no_ack_returns [of "k + m" s] i2c_read_ack_returns [of "k + m" s] last
    by (cases "k = 0") auto
  let ?s1 = "s\<lparr>writes := writes s @ ?op, TWCR_in := r1, TWDR_in := stl (TWDR_in s)\<rparr>"
  let ?b1 = "buffer(unat i := shd (TWDR_in s))"
  from Suc.prems(1) succ have "unat (i + 1) + k = unat len"
    by simp
  moreover from r1 have "raises (k + m) (TWCR_in ?s1)"
    by simp
  ultimately obtain rs where
    loop: "pageread_loop (i + 1) len ?b1 ?s1 =
      Some (\<lambda>j. if unat (i + 1) \<le> j \<and> j < unat len then TWDR_in ?s1 !! (j - unat (i + 1))
                else ?b1 j,
        ?s1\<lparr>writes := writes ?s1 @ read_ops k, TWCR_in := rs,
          TWDR_in := sdrop k (TWDR_in ?s1)\<rparr>)"
    and rs: "raises m rs"
    using Suc.IH [of "i + 1" ?s1 ?b1] by blast
  have buf: "(\<lambda>j. if unat (i + 1) \<le> j \<and> j < unat len then TWDR_in ?s1 !! (j - unat (i + 1))
                else ?b1 j)
      = (\<lambda>j. if unat i \<le> j \<and> j < unat len then TWDR_in s !! (j - unat i) else buffer j)"
  proof
    fix j
    from lt have "unat i < unat len"
      by (simp add: word_less_nat_alt)
    then show "(if unat (i + 1) \<le> j \<and> j < unat len then TWDR_in ?s1 !! (j - unat (i + 1))
                else ?b1 j)
      = (if unat i \<le> j \<and> j < unat len then TWDR_in s !! (j - unat i) else buffer j)"
      by (cases "j = unat i") (auto simp: succ Suc_diff_Suc simp flip: snth.simps(2))
  qed
  have st: "?s1\<lparr>writes := writes ?s1 @ read_ops k, TWCR_in := rs,
          TWDR_in := sdrop k (TWDR_in ?s1)\<rparr>
      = s\<lparr>writes := writes s @ read_ops (Suc k), TWCR_in := rs,
          TWDR_in := sdrop (Suc k) (TWDR_in s)\<rparr>"
    using read_ops_Suc [of k] by simp
  have "pageread_loop i len buffer s = pageread_loop (i + 1) len ?b1 ?s1"
    using lt rd by (subst pageread_loop.simps) simp
  with loop buf st rs show ?case
    by (intro exI [of _ rs]) simp
qed

lemma pageread_loop_needs:
  "pageread_loop i len buffer s = Some (buffer', s') \<Longrightarrow> raises n (TWCR_in s') \<Longrightarrow>
   raises (unat len - unat i + n) (TWCR_in s)"
proof (induction i len buffer s rule: pageread_loop.induct)
  case (1 i len buffer s)
  show ?case
  proof (cases "i < len")
    case False
    with "1.prems" show ?thesis
      by (subst (asm) pageread_loop.simps) (simp add: word_less_nat_alt)
  next
    case True
    with "1.prems"(1) obtain v s1 where
      rd: "(if uint i = uint len - 1 then i2c_read_no_ack s else i2c_read_ack s) = Some (v, s1)"
      and rest: "pageread_loop (i + 1) len (buffer(unat i := v)) s1 = Some (buffer', s')"
      by (subst (asm) pageread_loop.simps) (auto simp: bind_eq_Some_conv)
    have after: "raises (unat len - unat (i + 1) + n) (TWCR_in s1)"
      by (rule "1.IH" [OF True rd refl rest "1.prems"(2)])
    from rd have "i2c_read_no_ack s = Some (v, s1) \<or> i2c_read_ack s = Some (v, s1)"
      by (simp split: if_splits)
    with after have "raises (Suc (unat len - unat (i + 1) + n)) (TWCR_in s)"
      using primitives_need_TWINT(3,4) by blast
    moreover from True have "unat i < unat len" and "unat (i + 1) = Suc (unat i)"
      by (simp_all add: word_less_nat_alt unat_succ_below)
    ultimately show ?thesis
      by (simp add: Suc_diff_Suc)
  qed
qed

section \<open>The transactions\<close>

lemma i2c_writeByte_returns:
  assumes "raises 3 (TWCR_in s)"
  shows "\<exists>rs. i2c_writeByte a d s =
    Some (s\<lparr>writes := writes s @ start_ops @ write_ops (push_bit 1 a) @ write_ops d @ stop_ops,
      TWCR_in := rs, TWSR_in := stl (stl (TWSR_in s))\<rparr>)"
proof -
  from assms have "raises (Suc 2) (TWCR_in s)"
    by (simp add: numeral_3_eq_3)
  then obtain r1 where 1: "i2c_start s = Some (s\<lparr>writes := writes s @ start_ops, TWCR_in := r1\<rparr>)"
    and "raises 2 r1"
    by (rule i2c_start_returns)
  let ?s1 = "s\<lparr>writes := writes s @ start_ops, TWCR_in := r1\<rparr>"
  from \<open>raises 2 r1\<close> have "raises (Suc 1) (TWCR_in ?s1)"
    by (simp add: numeral_2_eq_2)
  then obtain r2 where 2: "i2c_write (push_bit 1 a) ?s1 =
      Some (if acknowledged (shd (TWSR_in ?s1)) then 1 else 0,
        ?s1\<lparr>writes := writes ?s1 @ write_ops (push_bit 1 a), TWCR_in := r2,
          TWSR_in := stl (TWSR_in ?s1)\<rparr>)"
    and "raises 1 r2"
    by (rule i2c_write_returns)
  let ?s2 = "?s1\<lparr>writes := writes ?s1 @ write_ops (push_bit 1 a), TWCR_in := r2,
          TWSR_in := stl (TWSR_in ?s1)\<rparr>"
  from \<open>raises 1 r2\<close> have "raises (Suc 0) (TWCR_in ?s2)"
    by simp
  then obtain r3 where 3: "i2c_write d ?s2 =
      Some (if acknowledged (shd (TWSR_in ?s2)) then 1 else 0,
        ?s2\<lparr>writes := writes ?s2 @ write_ops d, TWCR_in := r3, TWSR_in := stl (TWSR_in ?s2)\<rparr>)"
    by (rule i2c_write_returns)
  from 1 2 3 show ?thesis
    by (intro exI [of _ r3]) (simp add: i2c_writeByte_def i2c_stop_eq)
qed

lemma i2c_readByte_returns:
  assumes "raises 3 (TWCR_in s)"
  shows "\<exists>rs. i2c_readByte a s =
    Some (shd (TWDR_in s),
      s\<lparr>writes := writes s @ start_ops @ write_ops (push_bit 1 a OR 1) @ read_no_ack_ops @ stop_ops,
        TWCR_in := rs, TWSR_in := stl (TWSR_in s), TWDR_in := stl (TWDR_in s)\<rparr>)"
proof -
  from assms have "raises (Suc 2) (TWCR_in s)"
    by (simp add: numeral_3_eq_3)
  then obtain r1 where 1: "i2c_start s = Some (s\<lparr>writes := writes s @ start_ops, TWCR_in := r1\<rparr>)"
    and "raises 2 r1"
    by (rule i2c_start_returns)
  let ?s1 = "s\<lparr>writes := writes s @ start_ops, TWCR_in := r1\<rparr>"
  from \<open>raises 2 r1\<close> have "raises (Suc 1) (TWCR_in ?s1)"
    by (simp add: numeral_2_eq_2)
  then obtain r2 where 2: "i2c_write (push_bit 1 a OR 1) ?s1 =
      Some (if acknowledged (shd (TWSR_in ?s1)) then 1 else 0,
        ?s1\<lparr>writes := writes ?s1 @ write_ops (push_bit 1 a OR 1), TWCR_in := r2,
          TWSR_in := stl (TWSR_in ?s1)\<rparr>)"
    and "raises 1 r2"
    by (rule i2c_write_returns)
  let ?s2 = "?s1\<lparr>writes := writes ?s1 @ write_ops (push_bit 1 a OR 1), TWCR_in := r2,
          TWSR_in := stl (TWSR_in ?s1)\<rparr>"
  from \<open>raises 1 r2\<close> have "raises (Suc 0) (TWCR_in ?s2)"
    by simp
  then obtain r3 where 3: "i2c_read_no_ack ?s2 =
      Some (shd (TWDR_in ?s2),
        ?s2\<lparr>writes := writes ?s2 @ read_no_ack_ops, TWCR_in := r3, TWDR_in := stl (TWDR_in ?s2)\<rparr>)"
    by (rule i2c_read_no_ack_returns)
  from 1 2 3 show ?thesis
    by (intro exI [of _ r3]) (simp add: i2c_readByte_def i2c_stop_eq)
qed

text \<open>The first two steps of the three other transactions: the start and the address byte.\<close>

lemma address_phase:
  assumes "raises (Suc (Suc n)) (TWCR_in s)"
  shows "\<exists>rs. raises n rs \<and>
    (\<forall>f :: u8 \<times> twi \<Rightarrow> 'a option. i2c_start s \<bind> (\<lambda>s1. i2c_write b s1 \<bind> f) =
      f (if acknowledged (shd (TWSR_in s)) then 1 else 0,
        s\<lparr>writes := writes s @ start_ops @ write_ops b, TWCR_in := rs,
          TWSR_in := stl (TWSR_in s)\<rparr>))"
proof -
  from assms obtain r1 where
    1: "i2c_start s = Some (s\<lparr>writes := writes s @ start_ops, TWCR_in := r1\<rparr>)"
    and "raises (Suc n) r1"
    by (rule i2c_start_returns)
  let ?s1 = "s\<lparr>writes := writes s @ start_ops, TWCR_in := r1\<rparr>"
  from \<open>raises (Suc n) r1\<close> have "raises (Suc n) (TWCR_in ?s1)"
    by simp
  then obtain r2 where 2: "i2c_write b ?s1 =
      Some (if acknowledged (shd (TWSR_in ?s1)) then 1 else 0,
        ?s1\<lparr>writes := writes ?s1 @ write_ops b, TWCR_in := r2, TWSR_in := stl (TWSR_in ?s1)\<rparr>)"
    and "raises n r2"
    by (rule i2c_write_returns)
  from 1 2 \<open>raises n r2\<close> show ?thesis
    by (intro exI [of _ r2]) simp
qed

lemma i2c_pagewrite_empty:
  assumes "raises 2 (TWCR_in s)" and "str = [] \<or> hd str = 0"
  shows "\<exists>rs. i2c_pagewrite a str s =
    Some (1, s\<lparr>writes := writes s @ start_ops @ write_ops (push_bit 1 a) @ stop_ops,
      TWCR_in := rs, TWSR_in := stl (TWSR_in s)\<rparr>)"
proof -
  from assms(1) have "raises (Suc (Suc 0)) (TWCR_in s)"
    by (simp add: numeral_2_eq_2)
  then obtain rs where
    "\<And>f :: u8 \<times> twi \<Rightarrow> (u8 \<times> twi) option.
      i2c_start s \<bind> (\<lambda>s1. i2c_write (push_bit 1 a) s1 \<bind> f) =
      f (if acknowledged (shd (TWSR_in s)) then 1 else 0,
        s\<lparr>writes := writes s @ start_ops @ write_ops (push_bit 1 a), TWCR_in := rs,
          TWSR_in := stl (TWSR_in s)\<rparr>)"
    using address_phase [of 0 s "push_bit 1 a"] by blast
  moreover from assms(2) have "pagewrite_from str t = Some (1, i2c_stop t)" for t
    by (cases str) auto
  ultimately show ?thesis
    by (intro exI [of _ rs]) (simp add: i2c_pagewrite_def i2c_stop_eq)
qed

lemma i2c_pageread_returns:
  assumes "raises (2 + unat len) (TWCR_in s)"
  shows "\<exists>rs. i2c_pageread a buffer len s =
    Some (\<lambda>j. if Suc j < unat len then TWDR_in s !! j
               else if Suc j = unat len then 0 else buffer j,
      s\<lparr>writes := writes s @ start_ops @ write_ops (push_bit 1 a OR 1) @ read_ops (unat len)
          @ stop_ops,
        TWCR_in := rs, TWSR_in := stl (TWSR_in s), TWDR_in := sdrop (unat len) (TWDR_in s)\<rparr>)"
proof -
  define b where "b = push_bit 1 a OR 1"
  from assms have "raises (Suc (Suc (unat len + 0))) (TWCR_in s)"
    by simp
  then obtain r1 where
    1: "\<And>f :: u8 \<times> twi \<Rightarrow> ((nat \<Rightarrow> u8) \<times> twi) option.
      i2c_start s \<bind> (\<lambda>s1. i2c_write b s1 \<bind> f) =
      f (if acknowledged (shd (TWSR_in s)) then 1 else 0,
        s\<lparr>writes := writes s @ start_ops @ write_ops b, TWCR_in := r1,
          TWSR_in := stl (TWSR_in s)\<rparr>)"
    and "raises (unat len + 0) r1"
    using address_phase [of "unat len + 0" s b] by blast
  let ?s2 = "s\<lparr>writes := writes s @ start_ops @ write_ops b, TWCR_in := r1,
          TWSR_in := stl (TWSR_in s)\<rparr>"
  let ?b1 = "\<lambda>j. if j < unat len then TWDR_in s !! j else buffer j"
  from \<open>raises (unat len + 0) r1\<close> have "raises (unat len + 0) (TWCR_in ?s2)"
    by simp
  moreover have "unat (0 :: u8) + unat len = unat len"
    by simp
  ultimately obtain rs where "pageread_loop 0 len buffer ?s2 =
      Some (\<lambda>j. if unat (0 :: u8) \<le> j \<and> j < unat len then TWDR_in ?s2 !! (j - unat (0 :: u8))
                 else buffer j,
        ?s2\<lparr>writes := writes ?s2 @ read_ops (unat len), TWCR_in := rs,
          TWDR_in := sdrop (unat len) (TWDR_in ?s2)\<rparr>)"
    using pageread_loop_returns [of 0 "unat len" len 0 ?s2 buffer] by blast
  moreover have "(\<lambda>j. if unat (0 :: u8) \<le> j \<and> j < unat len
      then TWDR_in ?s2 !! (j - unat (0 :: u8)) else buffer j) = ?b1"
    by (intro ext) simp
  ultimately have 2: "pageread_loop 0 len buffer ?s2 =
      Some (?b1, s\<lparr>writes := writes s @ start_ops @ write_ops b @ read_ops (unat len),
        TWCR_in := rs, TWSR_in := stl (TWSR_in s), TWDR_in := sdrop (unat len) (TWDR_in s)\<rparr>)"
    by simp
  have 3: "(if len > 0 then ?b1(unat len - 1 := 0) else ?b1)
      = (\<lambda>j. if Suc j < unat len then TWDR_in s !! j
              else if Suc j = unat len then 0 else buffer j)"
    by (intro ext) (auto simp: word_greater_zero_iff unat_eq_0 unat_gt_0)
  show ?thesis
    unfolding i2c_pageread_def b_def [symmetric]
    by (intro exI [of _ rs]) (simp add: i2c_stop_eq 1 2 3 del: fun_upd_apply)
qed

text \<open>
  The hypotheses on \<open>raises\<close> in the statements below are no restriction: a transaction
  that returns has seen TWINT set that many times.
\<close>

lemma transactions_need_TWINT:
  "i2c_writeByte a d s = Some s' \<Longrightarrow> raises 3 (TWCR_in s)"
  "i2c_readByte a s = Some (v, s') \<Longrightarrow> raises 3 (TWCR_in s)"
  "i2c_pagewrite a str s = Some (r, s') \<Longrightarrow> raises 2 (TWCR_in s)"
  "i2c_pageread a buffer len s = Some (buffer', s') \<Longrightarrow> raises (2 + unat len) (TWCR_in s)"
proof -
  have two: "raises (Suc (Suc n)) (TWCR_in s)"
    if "i2c_start s = Some s1" and "i2c_write b s1 = Some (r, s2)" and "raises n (TWCR_in s2)"
    for n b s1 r s2
    using that by (blast intro: primitives_need_TWINT)
  show "raises 3 (TWCR_in s)" if "i2c_writeByte a d s = Some s'"
  proof -
    from that obtain s1 r s2 r' s3 where "i2c_start s = Some s1"
      and "i2c_write (push_bit 1 a) s1 = Some (r, s2)" and "i2c_write d s2 = Some (r', s3)"
      by (auto simp: i2c_writeByte_def bind_eq_Some_conv)
    moreover have "raises 0 (TWCR_in s3)"
      by simp
    ultimately have "raises (Suc (Suc (Suc 0))) (TWCR_in s)"
      by (blast intro: two primitives_need_TWINT)
    then show ?thesis
      by (simp add: numeral_3_eq_3)
  qed
  show "raises 3 (TWCR_in s)" if "i2c_readByte a s = Some (v, s')"
  proof -
    from that obtain s1 r s2 v' s3 where "i2c_start s = Some s1"
      and "i2c_write (push_bit 1 a OR 1) s1 = Some (r, s2)"
      and "i2c_read_no_ack s2 = Some (v', s3)"
      by (auto simp: i2c_readByte_def bind_eq_Some_conv)
    moreover have "raises 0 (TWCR_in s3)"
      by simp
    ultimately have "raises (Suc (Suc (Suc 0))) (TWCR_in s)"
      by (blast intro: two primitives_need_TWINT)
    then show ?thesis
      by (simp add: numeral_3_eq_3)
  qed
  show "raises 2 (TWCR_in s)" if "i2c_pagewrite a str s = Some (r, s')"
  proof -
    from that obtain s1 r1 s2 where "i2c_start s = Some s1"
      and "i2c_write (push_bit 1 a) s1 = Some (r1, s2)"
      by (auto simp: i2c_pagewrite_def bind_eq_Some_conv)
    moreover have "raises 0 (TWCR_in s2)"
      by simp
    ultimately have "raises (Suc (Suc 0)) (TWCR_in s)"
      by (rule two)
    then show ?thesis
      by (simp add: numeral_2_eq_2)
  qed
  show "raises (2 + unat len) (TWCR_in s)" if "i2c_pageread a buffer len s = Some (buffer', s')"
  proof -
    from that obtain s1 r1 s2 b1 s3 where "i2c_start s = Some s1"
      and "i2c_write (push_bit 1 a OR 1) s1 = Some (r1, s2)"
      and "pageread_loop 0 len buffer s2 = Some (b1, s3)"
      by (auto simp: i2c_pageread_def bind_eq_Some_conv)
    moreover have "raises 0 (TWCR_in s3)"
      by simp
    ultimately have "raises (Suc (Suc (unat len - unat (0 :: u8) + 0))) (TWCR_in s)"
      by (blast intro: two pageread_loop_needs)
    then show ?thesis
      by simp
  qed
qed

text \<open>
  C7. \<open>i2c_writeByte address data\<close> performs four primitive operations in this order: a
  start condition, the write of \<open>address << 1\<close>, the write of \<open>data\<close>, a stop condition.
  It reads a status for each of the two writes and uses neither: the sequence is the same
  for every status the hardware reports. For address 0x10 and data 0xAA the bytes written
  are 0x20 and 0xAA.
\<close>

theorem i2c_writeByte_sequence:
  assumes "raises 3 (TWCR_in s)"
  shows "(\<exists>s'. i2c_writeByte Slave_Address Data s = Some s'
      \<and> writes s' = writes s @ start_ops @ write_ops (push_bit 1 Slave_Address)
          @ write_ops Data @ stop_ops
      \<and> TWSR_in s' = stl (stl (TWSR_in s)))
    \<and> (\<exists>s'. i2c_writeByte 0x10 0xAA s = Some s'
      \<and> writes s' = writes s @ start_ops @ write_ops 0x20 @ write_ops 0xAA @ stop_ops)"
proof -
  obtain rs where "i2c_writeByte Slave_Address Data s =
    Some (s\<lparr>writes := writes s @ start_ops @ write_ops (push_bit 1 Slave_Address)
        @ write_ops Data @ stop_ops,
      TWCR_in := rs, TWSR_in := stl (stl (TWSR_in s))\<rparr>)"
    using i2c_writeByte_returns [OF assms] by blast
  moreover obtain rs' where "i2c_writeByte 0x10 0xAA s =
    Some (s\<lparr>writes := writes s @ start_ops @ write_ops (push_bit 1 0x10) @ write_ops 0xAA
        @ stop_ops,
      TWCR_in := rs', TWSR_in := stl (stl (TWSR_in s))\<rparr>)"
    using i2c_writeByte_returns [OF assms] by blast
  ultimately show ?thesis
    by simp
qed

theorem i2c_writeByte_sequence_witness:
  "raises 3 (TWCR_in (bus [0x20, 0x30] []))
   \<and> (\<exists>s'. i2c_writeByte 0x10 0xAA (bus [0x20, 0x30] []) = Some s'
      \<and> writes s' = [(TWCR, 0xA4), (TWDR, 0x20), (TWCR, 0x84), (TWDR, 0xAA), (TWCR, 0x84),
           (TWCR, 0x94)])"
proof -
  have h: "raises 3 (TWCR_in (bus [0x20, 0x30] []))"
    by (rule raises_bus)
  have "writes (bus [0x20, 0x30] []) = []"
    by (simp add: bus_def)
  with i2c_writeByte_sequence [OF h] h show ?thesis
    by (simp add: start_ops_def write_ops_def stop_ops_def)
qed

text \<open>
  C10. With an empty string, that is one whose first byte is the terminator,
  \<open>i2c_pagewrite\<close> performs a start condition, the write of \<open>address << 1\<close> and a stop
  condition, transmits no data byte and returns 1. This holds for every status that the
  hardware reports for the address byte, acknowledged or not.
\<close>

theorem i2c_pagewrite_empty_string:
  assumes "raises 2 (TWCR_in s)"
  shows "(\<exists>s'. i2c_pagewrite Slave_Address [] s = Some (1, s')
      \<and> writes s' = writes s @ start_ops @ write_ops (push_bit 1 Slave_Address) @ stop_ops)
    \<and> (\<exists>s'. i2c_pagewrite Slave_Address (0 # str) s = Some (1, s')
      \<and> writes s' = writes s @ start_ops @ write_ops (push_bit 1 Slave_Address) @ stop_ops)"
proof -
  obtain rs where "i2c_pagewrite Slave_Address [] s =
    Some (1, s\<lparr>writes := writes s @ start_ops @ write_ops (push_bit 1 Slave_Address) @ stop_ops,
      TWCR_in := rs, TWSR_in := stl (TWSR_in s)\<rparr>)"
    using i2c_pagewrite_empty [OF assms, of "[]"] by auto
  moreover obtain rs' where "i2c_pagewrite Slave_Address (0 # str) s =
    Some (1, s\<lparr>writes := writes s @ start_ops @ write_ops (push_bit 1 Slave_Address) @ stop_ops,
      TWCR_in := rs', TWSR_in := stl (TWSR_in s)\<rparr>)"
    using i2c_pagewrite_empty [OF assms, of "0 # str"] by auto
  ultimately show ?thesis
    by simp
qed

theorem i2c_pagewrite_empty_string_witness:
  "raises 2 (TWCR_in (bus [0x20] []))
   \<and> \<not> acknowledged (shd (TWSR_in (bus [0x20] [])))
   \<and> (\<exists>s'. i2c_pagewrite 0x10 [] (bus [0x20] []) = Some (1, s')
      \<and> writes s' = [(TWCR, 0xA4), (TWDR, 0x20), (TWCR, 0x84), (TWCR, 0x94)])"
proof -
  have h: "raises 2 (TWCR_in (bus [0x20] []))"
    by (rule raises_bus)
  have "writes (bus [0x20] []) = []" and "\<not> acknowledged (shd (TWSR_in (bus [0x20] [])))"
    by (simp_all add: bus_def acknowledged_def)
  with i2c_pagewrite_empty_string [OF h, of "0x10"] h show ?thesis
    by (simp add: start_ops_def write_ops_def stop_ops_def)
qed

text \<open>
  C6. With length 0, \<open>i2c_pageread\<close> performs a start condition, the write of
  \<open>(address << 1) | 1\<close> and a stop condition. It reads the data register not once and
  leaves the buffer as it was.
\<close>

theorem i2c_pageread_zero:
  assumes "raises 2 (TWCR_in s)"
  shows "\<exists>s'. i2c_pageread Slave_Address buffer 0 s = Some (buffer, s')
    \<and> writes s' = writes s @ start_ops @ write_ops (push_bit 1 Slave_Address OR 1) @ stop_ops
    \<and> TWDR_in s' = TWDR_in s"
proof -
  from assms have "raises (2 + unat (0 :: u8)) (TWCR_in s)"
    by simp
  then obtain rs where "i2c_pageread Slave_Address buffer 0 s =
    Some (\<lambda>j. if Suc j < unat (0 :: u8) then TWDR_in s !! j
               else if Suc j = unat (0 :: u8) then 0 else buffer j,
      s\<lparr>writes := writes s @ start_ops @ write_ops (push_bit 1 Slave_Address OR 1)
          @ read_ops (unat (0 :: u8)) @ stop_ops,
        TWCR_in := rs, TWSR_in := stl (TWSR_in s),
        TWDR_in := sdrop (unat (0 :: u8)) (TWDR_in s)\<rparr>)"
    using i2c_pageread_returns [of 0 s Slave_Address buffer] by blast
  then show ?thesis
    by (simp add: read_ops_def)
qed

theorem i2c_pageread_zero_witness:
  "raises 2 (TWCR_in (bus [0x40] [0x11]))
   \<and> (\<exists>s'. i2c_pageread 0x10 (\<lambda>_. 0xEE) 0 (bus [0x40] [0x11]) = Some (\<lambda>_. 0xEE, s')
      \<and> writes s' = [(TWCR, 0xA4), (TWDR, 0x21), (TWCR, 0x84), (TWCR, 0x94)]
      \<and> shd (TWDR_in s') = 0x11)"
proof -
  have h: "raises 2 (TWCR_in (bus [0x40] [0x11]))"
    by (rule raises_bus)
  have "writes (bus [0x40] [0x11]) = []" and "shd (TWDR_in (bus [0x40] [0x11])) = 0x11"
    by (simp_all add: bus_def)
  with i2c_pageread_zero [OF h, of "0x10" "\<lambda>_. 0xEE"] h show ?thesis
    by (auto simp: start_ops_def write_ops_def stop_ops_def)
qed

text \<open>
  C5. With a length \<open>N \<ge> 1\<close>, \<open>i2c_pageread\<close> reads the data register \<open>N\<close> times: after
  the start condition and the address byte come \<open>N - 1\<close> reads with acknowledgment, then
  one read without, then the stop condition. Its loop stores the \<open>N\<close> bytes at the
  positions \<open>0\<close> to \<open>N - 1\<close> of the buffer, in the order of the reads, so the bytes at
  \<open>0\<close> to \<open>N - 2\<close> are those read with acknowledgment and the byte at \<open>N - 1\<close> is the
  one read without; no other position of the buffer changes.
\<close>

theorem i2c_pageread_reads:
  assumes "len \<noteq> 0" and "raises (2 + unat len) (TWCR_in s)"
  shows "(\<exists>buffer' s'. i2c_pageread Slave_Address buffer len s = Some (buffer', s')
      \<and> writes s' = writes s @ start_ops @ write_ops (push_bit 1 Slave_Address OR 1)
          @ concat (replicate (unat len - 1) read_ack_ops) @ read_no_ack_ops @ stop_ops
      \<and> TWDR_in s' = sdrop (unat len) (TWDR_in s)
      \<and> buffer' = (\<lambda>j. if Suc j < unat len then TWDR_in s !! j
                       else if Suc j = unat len then 0 else buffer j))
    \<and> (\<exists>buffer1 s1. pageread_loop 0 len buffer s = Some (buffer1, s1)
      \<and> writes s1 = writes s @ concat (replicate (unat len - 1) read_ack_ops) @ read_no_ack_ops
      \<and> TWDR_in s1 = sdrop (unat len) (TWDR_in s)
      \<and> buffer1 = (\<lambda>j. if j < unat len then TWDR_in s !! j else buffer j))"
proof -
  from assms(1) have pos: "unat len \<noteq> 0"
    by (simp add: unat_eq_0)
  obtain rs where "i2c_pageread Slave_Address buffer len s =
    Some (\<lambda>j. if Suc j < unat len then TWDR_in s !! j
               else if Suc j = unat len then 0 else buffer j,
      s\<lparr>writes := writes s @ start_ops @ write_ops (push_bit 1 Slave_Address OR 1)
          @ read_ops (unat len) @ stop_ops,
        TWCR_in := rs, TWSR_in := stl (TWSR_in s), TWDR_in := sdrop (unat len) (TWDR_in s)\<rparr>)"
    using i2c_pageread_returns [OF assms(2)] by blast
  with pos have whole: "\<exists>buffer' s'. i2c_pageread Slave_Address buffer len s = Some (buffer', s')
      \<and> writes s' = writes s @ start_ops @ write_ops (push_bit 1 Slave_Address OR 1)
          @ concat (replicate (unat len - 1) read_ack_ops) @ read_no_ack_ops @ stop_ops
      \<and> TWDR_in s' = sdrop (unat len) (TWDR_in s)
      \<and> buffer' = (\<lambda>j. if Suc j < unat len then TWDR_in s !! j
                       else if Suc j = unat len then 0 else buffer j)"
    by (simp add: read_ops_def)
  have "unat (0 :: u8) + unat len = unat len"
    by simp
  moreover from assms(2) have "raises (unat len + 2) (TWCR_in s)"
    by (simp add: add.commute)
  ultimately obtain rs' where "pageread_loop 0 len buffer s =
      Some (\<lambda>j. if unat (0 :: u8) \<le> j \<and> j < unat len then TWDR_in s !! (j - unat (0 :: u8))
                 else buffer j,
        s\<lparr>writes := writes s @ read_ops (unat len), TWCR_in := rs',
          TWDR_in := sdrop (unat len) (TWDR_in s)\<rparr>)"
    using pageread_loop_returns [of 0 "unat len" len 2 s buffer] by blast
  moreover have "(\<lambda>j. if unat (0 :: u8) \<le> j \<and> j < unat len
      then TWDR_in s !! (j - unat (0 :: u8)) else buffer j)
      = (\<lambda>j. if j < unat len then TWDR_in s !! j else buffer j)"
    by (intro ext) simp
  ultimately have "\<exists>buffer1 s1. pageread_loop 0 len buffer s = Some (buffer1, s1)
      \<and> writes s1 = writes s @ concat (replicate (unat len - 1) read_ack_ops) @ read_no_ack_ops
      \<and> TWDR_in s1 = sdrop (unat len) (TWDR_in s)
      \<and> buffer1 = (\<lambda>j. if j < unat len then TWDR_in s !! j else buffer j)"
    using pos by (simp add: read_ops_def)
  with whole show ?thesis ..
qed

theorem i2c_pageread_reads_witness:
  "(3 :: u8) \<noteq> 0 \<and> raises (2 + unat (3 :: u8)) (TWCR_in (bus [0x40] [0x11, 0x22, 0x33]))
   \<and> (\<exists>buffer' s'. i2c_pageread 0x10 (\<lambda>_. 0xEE) 3 (bus [0x40] [0x11, 0x22, 0x33])
        = Some (buffer', s')
      \<and> writes s' = [(TWCR, 0xA4), (TWDR, 0x21), (TWCR, 0x84), (TWCR, 0xC4), (TWCR, 0xC4),
           (TWCR, 0x84), (TWCR, 0x94)]
      \<and> buffer' 0 = 0x11 \<and> buffer' 1 = 0x22 \<and> buffer' 3 = 0xEE)
   \<and> (\<exists>buffer1 s1. pageread_loop 0 3 (\<lambda>_. 0xEE) (bus [0x40] [0x11, 0x22, 0x33])
        = Some (buffer1, s1)
      \<and> buffer1 0 = 0x11 \<and> buffer1 1 = 0x22 \<and> buffer1 2 = 0x33 \<and> buffer1 3 = 0xEE)"
proof -
  have h1: "(3 :: u8) \<noteq> 0"
    by simp
  have h2: "raises (2 + unat (3 :: u8)) (TWCR_in (bus [0x40] [0x11, 0x22, 0x33]))"
    by (rule raises_bus)
  have "writes (bus [0x40] [0x11, 0x22, 0x33]) = []"
    and "TWDR_in (bus [0x40] [0x11, 0x22, 0x33]) !! 0 = 0x11"
    and "TWDR_in (bus [0x40] [0x11, 0x22, 0x33]) !! 1 = 0x22"
    by (simp_all add: bus_def)
  moreover have "TWDR_in (bus [0x40] [0x11, 0x22, 0x33]) !! 2 = 0x33"
    by (simp add: bus_def numeral_2_eq_2)
  moreover have "replicate 2 x = [x, x]" for x :: "reg \<times> u8"
    by (simp add: numeral_2_eq_2)
  ultimately show ?thesis
    using i2c_pageread_reads [OF h1 h2, of "0x10" "\<lambda>_. 0xEE"] h1 h2
    by (auto simp: start_ops_def write_ops_def stop_ops_def read_ack_ops_def
        read_no_ack_ops_def)
qed

text \<open>
  C9. With a length \<open>N \<ge> 1\<close>, the byte at position \<open>N - 1\<close> of the buffer is 0 when
  \<open>i2c_pageread\<close> returns, whatever the hardware delivered: the \<open>N\<close>-th byte is taken from
  the data register, by the read without acknowledgment, and the buffer that comes back
  holds the first \<open>N - 1\<close> bytes only.
\<close>

theorem i2c_pageread_terminator:
  assumes "len \<noteq> 0" and "raises (2 + unat len) (TWCR_in s)"
  shows "\<exists>buffer' s'. i2c_pageread Slave_Address buffer len s = Some (buffer', s')
    \<and> buffer' (unat len - 1) = 0
    \<and> TWDR_in s' = sdrop (unat len) (TWDR_in s)
    \<and> buffer' = (\<lambda>j. if Suc j < unat len then TWDR_in s !! j
                     else if Suc j = unat len then 0 else buffer j)"
proof -
  from assms(1) have pos: "unat len \<noteq> 0"
    by (simp add: unat_eq_0)
  obtain rs where "i2c_pageread Slave_Address buffer len s =
    Some (\<lambda>j. if Suc j < unat len then TWDR_in s !! j
               else if Suc j = unat len then 0 else buffer j,
      s\<lparr>writes := writes s @ start_ops @ write_ops (push_bit 1 Slave_Address OR 1)
          @ read_ops (unat len) @ stop_ops,
        TWCR_in := rs, TWSR_in := stl (TWSR_in s), TWDR_in := sdrop (unat len) (TWDR_in s)\<rparr>)"
    using i2c_pageread_returns [OF assms(2)] by blast
  with pos show ?thesis
    by simp
qed

theorem i2c_pageread_terminator_witness:
  "(3 :: u8) \<noteq> 0 \<and> raises (2 + unat (3 :: u8)) (TWCR_in (bus [0x40] [0x11, 0x22, 0x33]))
   \<and> TWDR_in (bus [0x40] [0x11, 0x22, 0x33]) !! 2 = 0x33
   \<and> (\<exists>buffer' s'. i2c_pageread 0x10 (\<lambda>_. 0xEE) 3 (bus [0x40] [0x11, 0x22, 0x33])
        = Some (buffer', s')
      \<and> buffer' 2 = 0)"
proof -
  have h1: "(3 :: u8) \<noteq> 0"
    by simp
  have h2: "raises (2 + unat (3 :: u8)) (TWCR_in (bus [0x40] [0x11, 0x22, 0x33]))"
    by (rule raises_bus)
  have "TWDR_in (bus [0x40] [0x11, 0x22, 0x33]) !! 2 = 0x33"
    by (simp add: bus_def numeral_2_eq_2)
  with i2c_pageread_terminator [OF h1 h2, of "0x10" "\<lambda>_. 0xEE"] h1 h2 show ?thesis
    by auto
qed

section \<open>The page write\<close>

lemma pagewrite_from_acked:
  assumes "\<forall>i < length (takeWhile (\<lambda>c. c \<noteq> 0) str). acknowledged (TWSR_in s !! i)"
    and "raises (length (takeWhile (\<lambda>c. c \<noteq> 0) str) + m) (TWCR_in s)"
  shows "\<exists>rs. pagewrite_from str s =
      Some (1, s\<lparr>writes := writes s @ concat (map write_ops (takeWhile (\<lambda>c. c \<noteq> 0) str))
          @ stop_ops,
        TWCR_in := rs,
        TWSR_in := sdrop (length (takeWhile (\<lambda>c. c \<noteq> 0) str)) (TWSR_in s)\<rparr>)
    \<and> raises m rs"
  using assms
proof (induction str arbitrary: s)
  case Nil
  then show ?case
    by (intro exI [of _ "TWCR_in s"]) (simp add: i2c_stop_eq)
next
  case (Cons c str)
  show ?case
  proof (cases "c = 0")
    case True
    with Cons.prems show ?thesis
      by (intro exI [of _ "TWCR_in s"]) (simp add: i2c_stop_eq)
  next
    case False
    let ?data = "takeWhile (\<lambda>c. c \<noteq> 0) str"
    from False Cons.prems(2) have "raises (Suc (length ?data + m)) (TWCR_in s)"
      by simp
    then obtain r1 where w: "i2c_write c s =
        Some (if acknowledged (shd (TWSR_in s)) then 1 else 0,
          s\<lparr>writes := writes s @ write_ops c, TWCR_in := r1, TWSR_in := stl (TWSR_in s)\<rparr>)"
      and r1: "raises (length ?data + m) r1"
      by (rule i2c_write_returns)
    let ?s1 = "s\<lparr>writes := writes s @ write_ops c, TWCR_in := r1, TWSR_in := stl (TWSR_in s)\<rparr>"
    from False Cons.prems(1) have ack0: "acknowledged (shd (TWSR_in s))"
      and "\<forall>i < length ?data. acknowledged (TWSR_in s !! Suc i)"
      by auto
    then have "\<forall>i < length ?data. acknowledged (TWSR_in ?s1 !! i)"
      by simp
    moreover from r1 have "raises (length ?data + m) (TWCR_in ?s1)"
      by simp
    ultimately obtain rs where "pagewrite_from str ?s1 =
        Some (1, ?s1\<lparr>writes := writes ?s1 @ concat (map write_ops ?data) @ stop_ops,
          TWCR_in := rs, TWSR_in := sdrop (length ?data) (TWSR_in ?s1)\<rparr>)"
      and "raises m rs"
      using Cons.IH [of ?s1] by blast
    with False w ack0 show ?thesis
      by (intro exI [of _ rs]) simp
  qed
qed

lemma pagewrite_from_nack:
  assumes "k < length (takeWhile (\<lambda>c. c \<noteq> 0) str)"
    and "\<forall>i < k. acknowledged (TWSR_in s !! i)"
    and "\<not> acknowledged (TWSR_in s !! k)"
    and "raises (Suc k) (TWCR_in s)"
  shows "\<exists>rs. pagewrite_from str s =
      Some (0, s\<lparr>writes := writes s @ concat (map write_ops (take (Suc k) str)),
        TWCR_in := rs, TWSR_in := sdrop (Suc k) (TWSR_in s)\<rparr>)"
  using assms
proof (induction str arbitrary: s k)
  case Nil
  then show ?case by simp
next
  case (Cons c str)
  from Cons.prems(1) have nz: "c \<noteq> 0"
    by (cases "c = 0") simp_all
  from Cons.prems(4) obtain r1 where w: "i2c_write c s =
      Some (if acknowledged (shd (TWSR_in s)) then 1 else 0,
        s\<lparr>writes := writes s @ write_ops c, TWCR_in := r1, TWSR_in := stl (TWSR_in s)\<rparr>)"
    and r1: "raises k r1"
    by (rule i2c_write_returns)
  let ?s1 = "s\<lparr>writes := writes s @ write_ops c, TWCR_in := r1, TWSR_in := stl (TWSR_in s)\<rparr>"
  show ?case
  proof (cases k)
    case 0
    with Cons.prems(3) have "\<not> acknowledged (shd (TWSR_in s))"
      by simp
    with nz w 0 show ?thesis
      by (intro exI [of _ r1]) simp
  next
    case (Suc k')
    with Cons.prems(2) have ack0: "acknowledged (shd (TWSR_in s))"
      and "\<forall>i < k'. acknowledged (TWSR_in s !! Suc i)"
      by auto
    then have "\<forall>i < k'. acknowledged (TWSR_in ?s1 !! i)"
      by simp
    moreover from Cons.prems(3) Suc have "\<not> acknowledged (TWSR_in ?s1 !! k')"
      by simp
    moreover from Cons.prems(1) nz Suc have "k' < length (takeWhile (\<lambda>c. c \<noteq> 0) str)"
      by simp
    moreover from r1 Suc have "raises (Suc k') (TWCR_in ?s1)"
      by simp
    ultimately obtain rs where "pagewrite_from str ?s1 =
        Some (0, ?s1\<lparr>writes := writes ?s1 @ concat (map write_ops (take (Suc k') str)),
          TWCR_in := rs, TWSR_in := sdrop (Suc k') (TWSR_in ?s1)\<rparr>)"
      using Cons.IH [of k' ?s1] by blast
    with nz w ack0 Suc show ?thesis
      by (intro exI [of _ rs]) simp
  qed
qed

lemma stops_ops [simp]:
  "stops (xs @ ys) = stops xs + stops ys" "stops start_ops = 0" "stops stop_ops = 1"
  "stops (write_ops b) = 0" "stops (read_ops n) = 0" "stops read_no_ack_ops = 0" "stops [] = 0"
  by (simp_all add: stops_def start_ops_def stop_ops_def write_ops_def read_ops_def
      read_ack_ops_def read_no_ack_ops_def TWSTO_def)

lemma starts_ops [simp]:
  "starts (xs @ ys) = starts xs + starts ys" "starts start_ops = 1" "starts stop_ops = 0"
  "starts (write_ops b) = 0" "starts (read_ops n) = 0" "starts read_no_ack_ops = 0"
  "starts [] = 0"
  by (simp_all add: starts_def start_ops_def stop_ops_def write_ops_def read_ops_def
      read_ack_ops_def read_no_ack_ops_def TWSTA_def)


lemma i2c_pagewrite_acked:
  assumes "\<forall>i < length (takeWhile (\<lambda>c. c \<noteq> 0) str). acknowledged (TWSR_in s !! Suc i)"
    and "raises (Suc (Suc (length (takeWhile (\<lambda>c. c \<noteq> 0) str)))) (TWCR_in s)"
  shows "\<exists>s'. i2c_pagewrite a str s = Some (1, s')
    \<and> writes s' = writes s @ start_ops @ write_ops (push_bit 1 a)
        @ concat (map write_ops (takeWhile (\<lambda>c. c \<noteq> 0) str)) @ stop_ops"
proof -
  define b where "b = push_bit 1 a"
  let ?data = "takeWhile (\<lambda>c. c \<noteq> 0) str"
  from assms(2) obtain r1 where
    1: "\<And>f :: u8 \<times> twi \<Rightarrow> (u8 \<times> twi) option.
      i2c_start s \<bind> (\<lambda>s1. i2c_write b s1 \<bind> f) =
      f (if acknowledged (shd (TWSR_in s)) then 1 else 0,
        s\<lparr>writes := writes s @ start_ops @ write_ops b, TWCR_in := r1,
          TWSR_in := stl (TWSR_in s)\<rparr>)"
    and r1: "raises (length ?data) r1"
    using address_phase [of "length ?data" s b] by blast
  let ?s2 = "s\<lparr>writes := writes s @ start_ops @ write_ops b, TWCR_in := r1,
          TWSR_in := stl (TWSR_in s)\<rparr>"
  from assms(1) have "\<forall>i < length ?data. acknowledged (TWSR_in ?s2 !! i)"
    by simp
  moreover from r1 have "raises (length ?data + 0) (TWCR_in ?s2)"
    by simp
  ultimately obtain rs where 2: "pagewrite_from str ?s2 =
      Some (1, ?s2\<lparr>writes := writes ?s2 @ concat (map write_ops ?data) @ stop_ops,
        TWCR_in := rs, TWSR_in := sdrop (length ?data) (TWSR_in ?s2)\<rparr>)"
    using pagewrite_from_acked [of str ?s2 0] by blast
  show ?thesis
    unfolding i2c_pagewrite_def b_def [symmetric] by (simp add: 1 2)
qed

lemma i2c_pagewrite_nack:
  assumes "k < length (takeWhile (\<lambda>c. c \<noteq> 0) str)"
    and "\<forall>i < k. acknowledged (TWSR_in s !! Suc i)"
    and "\<not> acknowledged (TWSR_in s !! Suc k)"
    and "raises (Suc (Suc (Suc k))) (TWCR_in s)"
  shows "\<exists>s'. i2c_pagewrite a str s = Some (0, s')
    \<and> writes s' = writes s @ start_ops @ write_ops (push_bit 1 a)
        @ concat (map write_ops (take (Suc k) str))
    \<and> stops (writes s') = stops (writes s)"
proof -
  define b where "b = push_bit 1 a"
  from assms(4) obtain r1 where
    1: "\<And>f :: u8 \<times> twi \<Rightarrow> (u8 \<times> twi) option.
      i2c_start s \<bind> (\<lambda>s1. i2c_write b s1 \<bind> f) =
      f (if acknowledged (shd (TWSR_in s)) then 1 else 0,
        s\<lparr>writes := writes s @ start_ops @ write_ops b, TWCR_in := r1,
          TWSR_in := stl (TWSR_in s)\<rparr>)"
    and r1: "raises (Suc k) r1"
    using address_phase [of "Suc k" s b] by blast
  let ?s2 = "s\<lparr>writes := writes s @ start_ops @ write_ops b, TWCR_in := r1,
          TWSR_in := stl (TWSR_in s)\<rparr>"
  from assms(2) have "\<forall>i < k. acknowledged (TWSR_in ?s2 !! i)"
    by simp
  moreover from assms(3) have "\<not> acknowledged (TWSR_in ?s2 !! k)"
    by simp
  moreover from r1 have "raises (Suc k) (TWCR_in ?s2)"
    by simp
  ultimately obtain rs where 2: "pagewrite_from str ?s2 =
      Some (0, ?s2\<lparr>writes := writes ?s2 @ concat (map write_ops (take (Suc k) str)),
        TWCR_in := rs, TWSR_in := sdrop (Suc k) (TWSR_in ?s2)\<rparr>)"
    using pagewrite_from_nack [OF assms(1), of ?s2] by blast
  have "stops (concat (map write_ops xs)) = 0" for xs
    by (induction xs) simp_all
  then show ?thesis
    unfolding i2c_pagewrite_def b_def [symmetric] by (simp add: 1 2)
qed

lemma transactions_stop_once:
  assumes "raises 3 (TWCR_in s)" and "raises (2 + unat len) (TWCR_in s)"
  shows "\<exists>s'. i2c_writeByte a d s = Some s'
      \<and> starts (writes s') = Suc (starts (writes s)) \<and> stops (writes s') = Suc (stops (writes s))"
    and "\<exists>v s'. i2c_readByte a s = Some (v, s')
      \<and> starts (writes s') = Suc (starts (writes s)) \<and> stops (writes s') = Suc (stops (writes s))"
    and "\<exists>buffer' s'. i2c_pageread a buffer len s = Some (buffer', s')
      \<and> starts (writes s') = Suc (starts (writes s)) \<and> stops (writes s') = Suc (stops (writes s))"
proof -
  from assms(1) obtain rs where "i2c_writeByte a d s =
    Some (s\<lparr>writes := writes s @ start_ops @ write_ops (push_bit 1 a) @ write_ops d @ stop_ops,
      TWCR_in := rs, TWSR_in := stl (stl (TWSR_in s))\<rparr>)"
    using i2c_writeByte_returns by blast
  then show "\<exists>s'. i2c_writeByte a d s = Some s'
      \<and> starts (writes s') = Suc (starts (writes s)) \<and> stops (writes s') = Suc (stops (writes s))"
    by simp
  from assms(1) obtain rs where "i2c_readByte a s =
    Some (shd (TWDR_in s),
      s\<lparr>writes := writes s @ start_ops @ write_ops (push_bit 1 a OR 1) @ read_no_ack_ops @ stop_ops,
        TWCR_in := rs, TWSR_in := stl (TWSR_in s), TWDR_in := stl (TWDR_in s)\<rparr>)"
    using i2c_readByte_returns by blast
  then show "\<exists>v s'. i2c_readByte a s = Some (v, s')
      \<and> starts (writes s') = Suc (starts (writes s)) \<and> stops (writes s') = Suc (stops (writes s))"
    by simp
  from assms(2) obtain rs where "i2c_pageread a buffer len s =
    Some (\<lambda>j. if Suc j < unat len then TWDR_in s !! j
               else if Suc j = unat len then 0 else buffer j,
      s\<lparr>writes := writes s @ start_ops @ write_ops (push_bit 1 a OR 1) @ read_ops (unat len)
          @ stop_ops,
        TWCR_in := rs, TWSR_in := stl (TWSR_in s), TWDR_in := sdrop (unat len) (TWDR_in s)\<rparr>)"
    using i2c_pageread_returns by blast
  then show "\<exists>buffer' s'. i2c_pageread a buffer len s = Some (buffer', s')
      \<and> starts (writes s') = Suc (starts (writes s)) \<and> stops (writes s') = Suc (stops (writes s))"
    by simp
qed

text \<open>
  C1. The claim: \<open>i2c_pagewrite\<close> returns 1 exactly when every byte, the address byte
  included, was acknowledged, and after an unacknowledged data byte it returns 0 and has
  issued a stop condition. The code on two buses: on the first the address byte is not
  acknowledged (status 0x20) and the string is empty, and the call returns 1; on the
  second the address byte is acknowledged (0x18) and the data byte 0x41 is not (0x30), and
  the call returns 0 after five register writes, none of which is a stop condition.
\<close>

theorem i2c_pagewrite_unacknowledged:
  "i2c_pagewrite 0x10 [] (bus [0x20] []) =
     Some (1, \<lparr>writes = [(TWCR, 0xA4), (TWDR, 0x20), (TWCR, 0x84), (TWCR, 0x94)],
       TWCR_in = cycle [0x04, 0x84], TWSR_in = sconst 0xF8, TWDR_in = sconst 0xFF\<rparr>)
   \<and> \<not> acknowledged 0x20
   \<and> i2c_pagewrite 0x10 [0x41] (bus [0x18, 0x30] []) =
     Some (0, \<lparr>writes = [(TWCR, 0xA4), (TWDR, 0x20), (TWCR, 0x84), (TWDR, 0x41), (TWCR, 0x84)],
       TWCR_in = cycle [0x04, 0x84], TWSR_in = sconst 0xF8, TWDR_in = sconst 0xFF\<rparr>)
   \<and> acknowledged 0x18 \<and> \<not> acknowledged 0x30"
  by (simp add: i2c_pagewrite_def i2c_start_def i2c_write_def i2c_stop_def write_reg_def
      read_TWSR_def bus_def wait_TWINT_ready wait_TWINT_busy acknowledged_def
      TWINT_def TWSTA_def TWSTO_def TWEN_def)

text \<open>
  C2. The claim: every transaction that issues a start condition issues exactly one stop
  condition before it returns. \<open>i2c_writeByte\<close>, \<open>i2c_readByte\<close> and \<open>i2c_pageread\<close> do
  (\<open>transactions_stop_once\<close>), and so does \<open>i2c_pagewrite\<close> when every data byte is
  acknowledged. After an unacknowledged data byte \<open>i2c_pagewrite\<close> returns with one start
  condition and no stop condition in its register writes.
\<close>

theorem i2c_pagewrite_returns_started:
  "\<exists>s'. i2c_pagewrite 0x10 [0x41] (bus [0x18, 0x30] []) = Some (0, s')
     \<and> starts (writes s') = 1 \<and> stops (writes s') = 0"
  by (simp add: i2c_pagewrite_def i2c_start_def i2c_write_def i2c_stop_def write_reg_def
      read_TWSR_def bus_def wait_TWINT_ready wait_TWINT_busy starts_def stops_def
      TWINT_def TWSTA_def TWSTO_def TWEN_def)

section \<open>The initialisation\<close>

text \<open>
  Where the 16-bit product \<open>freq * 1000\<close> does not wrap and the quotient fits the 8-bit
  register, that is for \<open>freq\<close> from 16 to 65, the value written to TWBR is
  \<open>(F_CPU / (freq * 1000) - 16) / 2\<close>.
\<close>

lemma i2c_init_in_range:
  assumes "16 \<le> unat freq" and "unat freq \<le> 65"
  shows "i2c_init freq s = Inr (s\<lparr>writes := writes s @
    [(TWSR, 0x00), (TWBR, of_nat ((8000000 div (unat freq * 1000) - 16) div 2)), (TWCR, 0x04)]\<rparr>)"
proof -
  let ?d = "ucast (freq * 1000) :: u32"
  let ?q = "8000000 div (unat freq * 1000)"
  from assms have m: "unat (freq * 1000) = unat freq * 1000"
    by (simp add: unat_word_ariths)
  then have d: "unat ?d = unat freq * 1000"
    using assms by (simp add: unsigned_ucast_eq take_bit_nat_eq_self)
  with assms have "?d \<noteq> 0"
    by (metis mult_eq_0_iff not_numeral_le_zero unat_0 zero_neq_numeral)
  have q: "unat (F_CPU div ?d) = ?q"
    by (simp add: unat_div F_CPU_def d)
  from assms have "8000000 div (65 * 1000) \<le> ?q"
    by (intro div_le_mono2) simp_all
  then have "16 \<le> ?q"
    by simp
  with q have "(16 :: u32) \<le> F_CPU div ?d"
    by (simp add: word_le_nat_alt)
  then have "unat (F_CPU div ?d - 16) = ?q - 16"
    using q by (simp add: unat_sub)
  then have "unat ((F_CPU div ?d - 16) div 2) = (?q - 16) div 2"
    by (simp add: unat_div)
  then have "(ucast ((F_CPU div ?d - 16) div 2) :: u8) = of_nat ((?q - 16) div 2)"
    by (metis of_nat_unat)
  with \<open>?d \<noteq> 0\<close> show ?thesis
    by (simp add: i2c_init_def write_reg_def TWEN_def Let_def)
qed

text \<open>Below 16 kHz the quotient is cut to its low byte: 392 becomes 136.\<close>

lemma i2c_init_low_byte:
  "i2c_init 10 s = Inr (s\<lparr>writes := writes s @ [(TWSR, 0x00), (TWBR, 136), (TWCR, 0x04)]\<rparr>)"
  by (simp add: i2c_init_def write_reg_def F_CPU_def TWEN_def)

lemma i2c_init_zero: "i2c_init 0 s = Inl DivisionByZero"
  by (simp add: i2c_init_def)

text \<open>
  C4. The claim: with a core clock of 8 MHz and a bus frequency of 100 kHz \<open>i2c_init\<close>
  writes \<open>(8000000 / (100 * 1000) - 16) / 2 = 32\<close> to the bit-rate register. The code:
  the 16-bit product \<open>100 * 1000\<close> wraps to 34464, and the value written is
  \<open>(8000000 / 34464 - 16) / 2 = 108\<close>.
\<close>

theorem i2c_init_100_kHz:
  "i2c_init 100 s = Inr (s\<lparr>writes := writes s @ [(TWSR, 0x00), (TWBR, 108), (TWCR, 0x04)]\<rparr>)
   \<and> (100 * 1000 :: u16) = 34464
   \<and> (8000000 div (100 * 1000) - 16) div 2 = (32 :: nat)"
  by (simp add: i2c_init_def write_reg_def F_CPU_def TWEN_def)

end
